theory Spec2Isabelle
  imports Main
begin

section \<open>Data model of solution.py\<close>

text \<open>
  Values stored in a memory are modelled as integers (the only values the program stores);
  a frozendict is a finite map from variable names to values, compared by content.
\<close>

record Memory =
  vars :: "string \<rightharpoonup> int"

text \<open>
  The exceptions the modelled code can raise: indexing a list out of range, unpacking a
  tuple of the wrong length, and a call whose keyword arguments cannot be bound.
\<close>

datatype exn = IndexError | ValueError | TypeError

text \<open>
  The outcome of calling an entry of a thread's table: the 4-tuple that \<open>Thread.run\<close>
  unpacks, a 3-tuple as \<open>nop\<close> returns, or an exception raised inside the entry.
\<close>

datatype retval =
  Tuple4 Memory Memory int bool
| Tuple3 Memory Memory int
| Raised exn

type_synonym callable = "Memory \<Rightarrow> Memory \<Rightarrow> retval"

record Thread =
  local_memory :: Memory
  states :: "callable list"
  name :: string
  current_state :: int
  is_running :: bool

record GlobalState =
  shared_memory :: Memory
  threads :: "Thread list"

record Transition =
  start :: GlobalState
  end' :: GlobalState

section \<open>Memory\<close>

text \<open>
  \<open>Memory.set(self, **kwargs)\<close>: the keyword arguments are the list of (name, value) pairs
  in call order. The method has the named parameter \<open>self\<close>, so a keyword of that name
  cannot be bound: the call raises a type error before the body runs. Otherwise the body
  assigns the pairs one by one into a copy of \<open>self.vars\<close>.
\<close>

definition assign :: "string \<times> int \<Rightarrow> (string \<rightharpoonup> int) \<Rightarrow> (string \<rightharpoonup> int)" where
  "assign kv new_vars = new_vars(fst kv \<mapsto> snd kv)"

definition Memory_set :: "Memory \<Rightarrow> (string \<times> int) list \<Rightarrow> exn + Memory" where
  "Memory_set self kwargs =
     (if ''self'' \<in> set (map fst kwargs) then Inl TypeError
      else Inr \<lparr>vars = fold assign kwargs (vars self)\<rparr>)"

definition Memory_get :: "Memory \<Rightarrow> string \<Rightarrow> int option" where
  "Memory_get self key = vars self key"

text \<open>
  The same method over an explicit store of dictionary objects, to follow which object
  each statement writes: \<open>dict(self.vars)\<close> allocates a copy, the loop assigns into the
  copy, \<open>frozendict(new_vars)\<close> allocates the result. An address is an index into the list
  of allocated dictionaries.
\<close>

type_synonym store = "(string \<rightharpoonup> int) list"

definition alloc :: "store \<Rightarrow> (string \<rightharpoonup> int) \<Rightarrow> nat \<times> store" where
  "alloc h d = (length h, h @ [d])"

definition setitem :: "nat \<Rightarrow> string \<times> int \<Rightarrow> store \<Rightarrow> store" where
  "setitem a kv h = h[a := assign kv (h ! a)]"

definition Memory_set_store ::
  "store \<Rightarrow> nat \<Rightarrow> (string \<times> int) list \<Rightarrow> exn + nat \<times> store" where
  "Memory_set_store h self kwargs =
     (if ''self'' \<in> set (map fst kwargs) then Inl TypeError
      else
        (let (new_vars, h1) = alloc h (h ! self);
             h2 = fold (setitem new_vars) kwargs h1
         in Inr (alloc h2 (h2 ! new_vars))))"

section \<open>Thread\<close>

text \<open>
  Indexing a table with a Python integer: a negative index counts from the end, an index
  outside \<open>-len .. len - 1\<close> raises.
\<close>

definition getitem :: "'a list \<Rightarrow> int \<Rightarrow> exn + 'a" where
  "getitem xs i =
     (if 0 \<le> i \<and> i < int (length xs) then Inr (xs ! nat i)
      else if - int (length xs) \<le> i \<and> i < 0 then Inr (xs ! nat (int (length xs) + i))
      else Inl IndexError)"

definition Thread_run :: "Thread \<Rightarrow> Memory \<Rightarrow> exn + (Thread \<times> Memory)" where
  "Thread_run self shared_mem =
     (case getitem (states self) (current_state self) of
        Inl e \<Rightarrow> Inl e
      | Inr f \<Rightarrow>
          (case f shared_mem (local_memory self) of
             Tuple4 new_shared_memory new_local_memory new_state running \<Rightarrow>
               Inr (\<lparr>local_memory = new_local_memory, states = states self, name = name self,
                     current_state = new_state, is_running = running\<rparr>, new_shared_memory)
           | Tuple3 _ _ _ \<Rightarrow> Inl ValueError
           | Raised e \<Rightarrow> Inl e))"

section \<open>GlobalState\<close>

text \<open>
  The result set of \<open>GlobalState.run\<close> is kept as the list of its distinct elements in
  order of insertion; \<open>set_add\<close> is \<open>set.add\<close>. Python leaves the iteration order of
  a set open; the order matters only where the loop of main extends its queue, and the sets
  the loop returns do not depend on it (\<open>explore_used_exact\<close>,
  \<open>explore_transitions_exact\<close>). The threads are a list; \<open>copy\<close> followed by an
  assignment at index i is the list update.
\<close>

definition set_add :: "'a list \<Rightarrow> 'a \<Rightarrow> 'a list" where
  "set_add result x = (if x \<in> set result then result else result @ [x])"

fun run_loop :: "GlobalState \<Rightarrow> nat list \<Rightarrow> GlobalState list \<Rightarrow> exn + GlobalState list" where
  "run_loop self [] result = Inr result"
| "run_loop self (i # rest) result =
     (let thread = threads self ! i in
      if \<not> is_running thread then run_loop self rest result
      else
        (case Thread_run thread (shared_memory self) of
           Inl e \<Rightarrow> Inl e
         | Inr (new_state, new_shared_memory) \<Rightarrow>
             run_loop self rest
               (set_add result
                  \<lparr>shared_memory = new_shared_memory,
                   threads = (threads self)[i := new_state]\<rparr>)))"

definition GlobalState_run :: "GlobalState \<Rightarrow> exn + GlobalState list" where
  "GlobalState_run self = run_loop self [0..<length (threads self)] []"

section \<open>The exploration loop of main\<close>

record explorer =
  used :: "GlobalState set"
  queue :: "GlobalState list"
  transitions :: "Transition set"

text \<open>
  One iteration of the \<open>while\<close> loop, for a non-empty queue: \<open>popleft\<close>, the
  successors of the item, one transition per successor, the successors not yet used added
  to \<open>used\<close> and to the back of the queue. An exception raised by
  \<open>GlobalState.run\<close> leaves the loop. The progress messages are not modelled.
\<close>

definition loop_body :: "explorer \<Rightarrow> exn + explorer" where
  "loop_body st =
     (let item = hd (queue st) in
      case GlobalState_run item of
        Inl e \<Rightarrow> Inl e
      | Inr new_states \<Rightarrow>
          (let clean_new_states = filter (\<lambda>s. s \<notin> used st) new_states in
           Inr \<lparr>used = used st \<union> set clean_new_states,
                queue = tl (queue st) @ clean_new_states,
                transitions =
                  transitions st \<union> (\<lambda>i. \<lparr>start = item, end' = i\<rparr>) ` set new_states\<rparr>))"

text \<open>
  The loop may run forever (a model with infinitely many reachable states), so it is a
  partial function into \<open>option\<close>: \<open>None\<close> is a run that never ends,
  \<open>Some (Inl e)\<close> a run ended by an exception, \<open>Some (Inr (used, transitions))\<close> the
  two sets that main reports.
\<close>

partial_function (option) explore :: "explorer \<Rightarrow> (exn + GlobalState set \<times> Transition set) option"
where
  "explore st =
     (if queue st = [] then Some (Inr (used st, transitions st))
      else
        (case loop_body st of
           Inl e \<Rightarrow> Some (Inl e)
         | Inr st' \<Rightarrow> explore st'))"

text \<open>
  The state before the loop, for a given initial state: nothing used, the initial state
  queued, no transitions.
\<close>

definition start_of :: "GlobalState \<Rightarrow> explorer" where
  "start_of initial = \<lparr>used = {}, queue = [initial], transitions = {}\<rparr>"

subsection \<open>The model built in main\<close>

definition nop :: callable where
  "nop shared local = Tuple3 shared local 1"

definition P_states :: "callable list" where
  "P_states =
     [nop,
      (\<lambda>shared local.
         case Memory_set shared [(''a'', 1)] of
           Inl e \<Rightarrow> Raised e
         | Inr new_shared \<Rightarrow> Tuple4 new_shared local 2 True),
      (\<lambda>shared local.
         if Memory_get shared ''b'' \<noteq> Some 0 then Tuple4 shared local 2 True
         else Tuple4 shared local 3 True),
      (\<lambda>shared local. Tuple4 shared local 4 True),
      (\<lambda>shared local.
         case Memory_set shared [(''a'', 0)] of
           Inl e \<Rightarrow> Raised e
         | Inr new_shared \<Rightarrow> Tuple4 new_shared local 1 True)]"

definition Q_states :: "callable list" where
  "Q_states =
     [nop,
      (\<lambda>shared local.
         case Memory_set shared [(''b'', 1)] of
           Inl e \<Rightarrow> Raised e
         | Inr new_shared \<Rightarrow> Tuple4 new_shared local 2 True),
      (\<lambda>shared local.
         if Memory_get shared ''a'' = Some 0 then Tuple4 shared local 4 False
         else Tuple4 shared local 3 True),
      (\<lambda>shared local.
         case Memory_set shared [(''b'', 0)] of
           Inl e \<Rightarrow> Raised e
         | Inr new_shared \<Rightarrow> Tuple4 new_shared local 1 True)]"

definition main_initial :: GlobalState where
  "main_initial =
     \<lparr>shared_memory = \<lparr>vars = [''a'' \<mapsto> 0, ''b'' \<mapsto> 0]\<rparr>,
      threads =
        [\<lparr>local_memory = \<lparr>vars = Map.empty\<rparr>, states = P_states, name = ''P'',
          current_state = 1, is_running = True\<rparr>,
         \<lparr>local_memory = \<lparr>vars = Map.empty\<rparr>, states = Q_states, name = ''Q'',
          current_state = 1, is_running = True\<rparr>]\<rparr>"

definition main :: "(exn + GlobalState set \<times> Transition set) option" where
  "main = explore (start_of main_initial)"

subsection \<open>Reachability by successor steps\<close>

definition successors :: "GlobalState \<Rightarrow> GlobalState set" where
  "successors c = (case GlobalState_run c of Inl e \<Rightarrow> {} | Inr l \<Rightarrow> set l)"

fun reach_in :: "nat \<Rightarrow> GlobalState \<Rightarrow> GlobalState set" where
  "reach_in 0 c = {c}"
| "reach_in (Suc n) c = (\<Union>d \<in> reach_in n c. successors d)"

section \<open>Auxiliary notions for the proofs\<close>

text \<open>
  The candidates of a state over a set of thread indices: one for every index whose thread
  is running and whose step returns.
\<close>

definition candidates :: "GlobalState \<Rightarrow> nat set \<Rightarrow> GlobalState set" where
  "candidates c I =
     {\<lparr>shared_memory = sh', threads = (threads c)[i := t']\<rparr> | i t' sh'.
        i \<in> I \<and> is_running (threads c ! i) \<and>
        Thread_run (threads c ! i) (shared_memory c) = Inr (t', sh')}"

text \<open>
  The invariant of the loop: every used state is still queued or has been expanded with all
  its successors used; every recorded transition is a step of its start, ends in a used
  state and starts in a used state or in the initial one; every queued state is used or
  initial.
\<close>

definition explore_inv :: "GlobalState \<Rightarrow> explorer \<Rightarrow> bool" where
  "explore_inv initial st \<longleftrightarrow>
     (\<forall>c \<in> used st. c \<in> set (queue st) \<or>
         (\<exists>l. GlobalState_run c = Inr l \<and> set l \<subseteq> used st)) \<and>
     (\<forall>tr \<in> transitions st.
         (\<exists>l. GlobalState_run (start tr) = Inr l \<and> end' tr \<in> set l) \<and>
         end' tr \<in> used st \<and> (start tr \<in> used st \<or> start tr = initial)) \<and>
     set (queue st) \<subseteq> insert initial (used st)"

text \<open>The states reachable from a state in one or more successor steps.\<close>

definition reach_plus :: "GlobalState \<Rightarrow> GlobalState set" where
  "reach_plus initial = (\<Union>n. reach_in (Suc n) initial)"

text \<open>
  A second invariant of the loop, for the converse inclusions: the initial state is still
  queued or has been expanded; every used state is still queued or has all its transitions
  recorded; every used state is reachable in one or more steps.
\<close>

definition explore_inv2 :: "GlobalState \<Rightarrow> explorer \<Rightarrow> bool" where
  "explore_inv2 initial st \<longleftrightarrow>
     (initial \<in> set (queue st) \<or>
        (\<exists>l. GlobalState_run initial = Inr l \<and> set l \<subseteq> used st \<and>
             (\<forall>d \<in> set l. \<lparr>start = initial, end' = d\<rparr> \<in> transitions st))) \<and>
     (\<forall>c \<in> used st. c \<in> set (queue st) \<or>
        (\<forall>d \<in> successors c. \<lparr>start = c, end' = d\<rparr> \<in> transitions st)) \<and>
     used st \<subseteq> reach_plus initial \<and>
     set (queue st) \<subseteq> insert initial (used st)"

text \<open>The states of the model of main: the two threads at given positions, given values of a and b.\<close>

definition P_thread :: "int \<Rightarrow> Thread" where
  "P_thread p = \<lparr>local_memory = \<lparr>vars = Map.empty\<rparr>, states = P_states, name = ''P'',
                 current_state = p, is_running = True\<rparr>"

definition Q_thread :: "int \<Rightarrow> bool \<Rightarrow> Thread" where
  "Q_thread q r = \<lparr>local_memory = \<lparr>vars = Map.empty\<rparr>, states = Q_states, name = ''Q'',
                   current_state = q, is_running = r\<rparr>"

definition main_state :: "int \<Rightarrow> int \<Rightarrow> int \<Rightarrow> int \<Rightarrow> bool \<Rightarrow> GlobalState" where
  "main_state x y p q r =
     \<lparr>shared_memory = \<lparr>vars = [''a'' \<mapsto> x, ''b'' \<mapsto> y]\<rparr>,
      threads = [P_thread p, Q_thread q r]\<rparr>"

definition main_inv :: "GlobalState \<Rightarrow> bool" where
  "main_inv c \<longleftrightarrow>
     (\<exists>x y p q r. c = main_state x y p q r \<and> x \<in> {0, 1} \<and> y \<in> {0, 1} \<and>
        p \<in> {1, 2, 3, 4} \<and> (r \<and> q \<in> {1, 2, 3} \<or> \<not> r \<and> q = 4))"

subsection \<open>Small models used as concrete inputs\<close>

text \<open>
  Scenario A of the specification: one thread, a table of one entry that sets x to 1 and
  moves to position 1, started at position 0 with x = 0; and the state after its step.
\<close>

definition scenarioA_thread :: "int \<Rightarrow> Thread" where
  "scenarioA_thread pc =
     \<lparr>local_memory = \<lparr>vars = Map.empty\<rparr>,
      states = [\<lambda>shared local.
                  case Memory_set shared [(''x'', 1)] of
                    Inl e \<Rightarrow> Raised e
                  | Inr new_shared \<Rightarrow> Tuple4 new_shared local 1 True],
      name = ''A'', current_state = pc, is_running = True\<rparr>"

definition scenarioA :: GlobalState where
  "scenarioA = \<lparr>shared_memory = \<lparr>vars = [''x'' \<mapsto> 0]\<rparr>, threads = [scenarioA_thread 0]\<rparr>"

definition scenarioA1 :: GlobalState where
  "scenarioA1 = \<lparr>shared_memory = \<lparr>vars = [''x'' \<mapsto> 1]\<rparr>, threads = [scenarioA_thread 1]\<rparr>"

text \<open>One thread whose only step clears its own running flag.\<close>

definition halt_thread :: "bool \<Rightarrow> Thread" where
  "halt_thread r =
     \<lparr>local_memory = \<lparr>vars = Map.empty\<rparr>,
      states = [\<lambda>shared local. Tuple4 shared local 0 False],
      name = ''H'', current_state = 0, is_running = r\<rparr>"

definition halting :: GlobalState where
  "halting = \<lparr>shared_memory = \<lparr>vars = Map.empty\<rparr>, threads = [halt_thread True]\<rparr>"

definition halted :: GlobalState where
  "halted = \<lparr>shared_memory = \<lparr>vars = Map.empty\<rparr>, threads = [halt_thread False]\<rparr>"

text \<open>One thread that alternates between positions 0 and 1 forever.\<close>

definition flip_thread :: "int \<Rightarrow> Thread" where
  "flip_thread pc =
     \<lparr>local_memory = \<lparr>vars = Map.empty\<rparr>,
      states = [\<lambda>shared local. Tuple4 shared local 1 True,
                \<lambda>shared local. Tuple4 shared local 0 True],
      name = ''F'', current_state = pc, is_running = True\<rparr>"

definition flip :: "int \<Rightarrow> GlobalState" where
  "flip pc = \<lparr>shared_memory = \<lparr>vars = Map.empty\<rparr>, threads = [flip_thread pc]\<rparr>"

section \<open>Memory.set\<close>

lemma fold_assign:
  "fold assign kwargs d = d ++ map_of (rev kwargs)"
proof (induction kwargs arbitrary: d)
  case Nil
  show ?case by simp
next
  case (Cons kv kwargs)
  obtain k' v' where kv: "kv = (k', v')" by (cases kv)
  have "d(k' \<mapsto> v') ++ map_of (rev kwargs) = (d ++ [k' \<mapsto> v']) ++ map_of (rev kwargs)"
    by simp
  also have "\<dots> = d ++ ([k' \<mapsto> v'] ++ map_of (rev kwargs))"
    by (simp only: map_add_assoc)
  finally have "d(k' \<mapsto> v') ++ map_of (rev kwargs) = d ++ map_of (rev (kv # kwargs))"
    by (simp add: kv)
  moreover have "assign kv d = d(k' \<mapsto> v')"
    by (simp add: kv assign_def)
  ultimately show ?case
    using Cons.IH[of "d(k' \<mapsto> v')"] by (simp only: fold_simps)
qed

lemma fold_assign_get:
  "fold assign kwargs d k =
     (case map_of (rev kwargs) k of None \<Rightarrow> d k | Some v \<Rightarrow> Some v)"
  by (simp add: fold_assign map_add_def)

lemma Memory_get_set:
  "''self'' \<notin> fst ` set kwargs \<Longrightarrow>
   \<exists>m'. Memory_set m kwargs = Inr m' \<and>
     (\<forall>k. Memory_get m' k =
        (case map_of (rev kwargs) k of None \<Rightarrow> Memory_get m k | Some v \<Rightarrow> Some v))"
  by (simp add: Memory_get_def Memory_set_def fold_assign_get split: option.splits)

lemma map_of_rev_distinct:
  "distinct (map fst kwargs) \<Longrightarrow> map_of (rev kwargs) = map_of kwargs"
  by (rule map_of_inject_set[THEN iffD2]) (simp_all add: rev_map[symmetric])

lemma fold_setitem:
  "a < length h \<Longrightarrow>
   fold (setitem a) kwargs h =
     h[a := fold assign kwargs (h ! a)]"
proof (induction kwargs arbitrary: h)
  case Nil
  then show ?case by simp
next
  case (Cons kv kwargs)
  then show ?case by (simp add: setitem_def split_beta)
qed

lemma Memory_set_store_eq:
  assumes "self < length h" and "''self'' \<notin> fst ` set kwargs"
  shows "Memory_set_store h self kwargs =
     Inr (Suc (length h),
          h @ [fold assign kwargs (h ! self), fold assign kwargs (h ! self)])"
  using assms
  by (simp add: Memory_set_store_def alloc_def fold_setitem nth_append)

lemma Memory_set_raises:
  "''self'' \<in> fst ` set kwargs \<Longrightarrow>
   Memory_set m kwargs = Inl TypeError \<and> Memory_set_store h self kwargs = Inl TypeError"
  by (simp add: Memory_set_def Memory_set_store_def)

section \<open>GlobalState.run\<close>

lemma candidates_insert_stopped:
  "\<not> is_running (threads c ! i) \<Longrightarrow> candidates c (insert i I) = candidates c I"
  by (auto simp: candidates_def)

lemma candidates_insert_failed:
  "Thread_run (threads c ! i) (shared_memory c) = Inl e \<Longrightarrow>
   candidates c (insert i I) = candidates c I"
  by (auto simp: candidates_def)

lemma candidates_insert_stepped:
  "is_running (threads c ! i) \<Longrightarrow>
   Thread_run (threads c ! i) (shared_memory c) = Inr (t', sh') \<Longrightarrow>
   candidates c (insert i I) =
     insert \<lparr>shared_memory = sh', threads = (threads c)[i := t']\<rparr> (candidates c I)"
  by (auto simp: candidates_def)

lemma set_set_add: "set (set_add xs x) = insert x (set xs)"
  by (auto simp: set_add_def)

lemma distinct_set_add: "distinct xs \<Longrightarrow> distinct (set_add xs x)"
  by (simp add: set_add_def)

lemma run_loop_set:
  "run_loop c is acc = Inr l \<Longrightarrow> set l = set acc \<union> candidates c (set is)"
proof (induction "is" arbitrary: acc)
  case Nil
  then show ?case by (simp add: candidates_def)
next
  case (Cons i rest)
  show ?case
  proof (cases "is_running (threads c ! i)")
    case False
    with Cons.prems have "run_loop c rest acc = Inr l" by simp
    from Cons.IH[OF this] False show ?thesis
      by (simp add: candidates_insert_stopped)
  next
    case True
    show ?thesis
    proof (cases "Thread_run (threads c ! i) (shared_memory c)")
      case (Inl e)
      with True Cons.prems show ?thesis by simp
    next
      case (Inr r)
      obtain t' sh' where r: "r = (t', sh')" by (cases r)
      let ?d = "\<lparr>shared_memory = sh', threads = (threads c)[i := t']\<rparr>"
      from True Inr r Cons.prems have "run_loop c rest (set_add acc ?d) = Inr l" by simp
      from Cons.IH[OF this] have "set l = insert ?d (set acc) \<union> candidates c (set rest)"
        by (simp add: set_set_add)
      moreover from True Inr r
      have "candidates c (set (i # rest)) = insert ?d (candidates c (set rest))"
        by (simp add: candidates_insert_stepped)
      ultimately show ?thesis by auto
    qed
  qed
qed

lemma run_loop_distinct:
  "run_loop c is acc = Inr l \<Longrightarrow> distinct acc \<Longrightarrow> distinct l"
proof (induction "is" arbitrary: acc)
  case Nil
  then show ?case by simp
next
  case (Cons i rest)
  then show ?case
    by (auto simp: Let_def distinct_set_add split: if_splits sum.splits prod.splits)
qed

lemma run_loop_returns:
  "\<forall>i\<in>set is. is_running (threads c ! i) \<longrightarrow>
      (\<exists>r. Thread_run (threads c ! i) (shared_memory c) = Inr r) \<Longrightarrow>
   \<exists>l. run_loop c is acc = Inr l"
proof (induction "is" arbitrary: acc)
  case Nil
  then show ?case by simp
next
  case (Cons i rest)
  then show ?case
    by (cases "is_running (threads c ! i)") (auto simp: Let_def)
qed

lemma run_loop_raises:
  "run_loop c is acc = Inl e \<Longrightarrow>
   \<exists>i\<in>set is. is_running (threads c ! i) \<and>
      Thread_run (threads c ! i) (shared_memory c) = Inl e"
proof (induction "is" arbitrary: acc)
  case Nil
  then show ?case by simp
next
  case (Cons i rest)
  then show ?case
    by (auto simp: Let_def split: if_splits sum.splits prod.splits)
qed

lemma GlobalState_run_set:
  "GlobalState_run c = Inr l \<Longrightarrow> set l = candidates c {..<length (threads c)}"
  using run_loop_set[of c "[0..<length (threads c)]" "[]" l]
  by (simp add: GlobalState_run_def atLeast_upt)

lemma GlobalState_run_distinct: "GlobalState_run c = Inr l \<Longrightarrow> distinct l"
  using run_loop_distinct[of c "[0..<length (threads c)]" "[]" l]
  by (simp add: GlobalState_run_def)

lemma candidates_keep_stopped:
  assumes "d \<in> candidates c I" and "\<not> is_running (threads c ! i)"
  shows "length (threads d) = length (threads c) \<and> threads d ! i = threads c ! i"
proof -
  from assms(1) obtain j t' sh' where
    d: "d = \<lparr>shared_memory = sh', threads = (threads c)[j := t']\<rparr>"
    and j: "is_running (threads c ! j)"
    by (auto simp: candidates_def)
  from j assms(2) have "j \<noteq> i" by auto
  with d show ?thesis by simp
qed

lemma successors_keep_stopped:
  assumes "d \<in> successors c" and "\<not> is_running (threads c ! i)"
  shows "length (threads d) = length (threads c) \<and> threads d ! i = threads c ! i"
proof (cases "GlobalState_run c")
  case (Inl e)
  with assms(1) show ?thesis by (simp add: successors_def)
next
  case (Inr l)
  with assms(1) have "d \<in> candidates c {..<length (threads c)}"
    using GlobalState_run_set[OF Inr] by (simp add: successors_def)
  then show ?thesis using assms(2) by (rule candidates_keep_stopped)
qed

lemma reach_in_keep_stopped:
  "e \<in> reach_in n c \<Longrightarrow> \<not> is_running (threads c ! i) \<Longrightarrow>
   length (threads e) = length (threads c) \<and> threads e ! i = threads c ! i"
proof (induction n arbitrary: e)
  case 0
  then show ?case by simp
next
  case (Suc n)
  from Suc.prems(1) obtain d where d: "d \<in> reach_in n c" and e: "e \<in> successors d"
    by auto
  from Suc.IH[OF d Suc.prems(2)]
  have dc: "length (threads d) = length (threads c)" "threads d ! i = threads c ! i"
    by simp_all
  with Suc.prems(2) have "\<not> is_running (threads d ! i)" by simp
  from successors_keep_stopped[OF e this] dc show ?case by simp
qed

section \<open>The exploration loop\<close>

lemma explore_inv_start: "explore_inv initial (start_of initial)"
  by (simp add: explore_inv_def start_of_def)

lemma loop_body_cases:
  assumes "loop_body st = Inr st'"
  obtains new_states where
    "GlobalState_run (hd (queue st)) = Inr new_states"
    "used st' = used st \<union> set new_states"
    "queue st' = tl (queue st) @ filter (\<lambda>s. s \<notin> used st) new_states"
    "transitions st' =
       transitions st \<union> (\<lambda>i. \<lparr>start = hd (queue st), end' = i\<rparr>) ` set new_states"
proof (cases "GlobalState_run (hd (queue st))")
  case (Inl e)
  with assms show ?thesis by (simp add: loop_body_def)
next
  case (Inr new_states)
  with assms have st': "st' = \<lparr>used = used st \<union> set (filter (\<lambda>s. s \<notin> used st) new_states),
                queue = tl (queue st) @ filter (\<lambda>s. s \<notin> used st) new_states,
                transitions =
                  transitions st \<union> (\<lambda>i. \<lparr>start = hd (queue st), end' = i\<rparr>) ` set new_states\<rparr>"
    by (simp add: loop_body_def Let_def)
  have "used st' = used st \<union> set new_states"
    unfolding st' by auto
  with Inr st' show ?thesis by (intro that[of new_states]) simp_all
qed

lemma explore_inv_step:
  assumes inv: "explore_inv initial st" and ne: "queue st \<noteq> []"
    and body: "loop_body st = Inr st'"
  shows "explore_inv initial st'"
proof -
  from body obtain new_states where
    run: "GlobalState_run (hd (queue st)) = Inr new_states" and
    u: "used st' = used st \<union> set new_states" and
    q: "queue st' = tl (queue st) @ filter (\<lambda>s. s \<notin> used st) new_states" and
    t: "transitions st' =
       transitions st \<union> (\<lambda>i. \<lparr>start = hd (queue st), end' = i\<rparr>) ` set new_states"
    by (rule loop_body_cases)
  from ne have qs: "set (queue st) = insert (hd (queue st)) (set (tl (queue st)))"
    by (cases "queue st") auto
  from inv have i1: "\<forall>c \<in> used st. c \<in> set (queue st) \<or>
         (\<exists>l. GlobalState_run c = Inr l \<and> set l \<subseteq> used st)"
    and i2: "\<forall>tr \<in> transitions st.
         (\<exists>l. GlobalState_run (start tr) = Inr l \<and> end' tr \<in> set l) \<and>
         end' tr \<in> used st \<and> (start tr \<in> used st \<or> start tr = initial)"
    and i3: "set (queue st) \<subseteq> insert initial (used st)"
    by (simp_all add: explore_inv_def)
  have g1: "\<forall>c \<in> used st'. c \<in> set (queue st') \<or>
         (\<exists>l. GlobalState_run c = Inr l \<and> set l \<subseteq> used st')"
  proof
    fix c assume "c \<in> used st'"
    with u consider "c \<in> used st" | "c \<notin> used st" "c \<in> set new_states" by auto
    then show "c \<in> set (queue st') \<or>
         (\<exists>l. GlobalState_run c = Inr l \<and> set l \<subseteq> used st')"
    proof cases
      case 1
      with i1 consider "c = hd (queue st)" | "c \<in> set (tl (queue st))"
        | "\<exists>l. GlobalState_run c = Inr l \<and> set l \<subseteq> used st"
        using qs by auto
      then show ?thesis
      proof cases
        case 1
        with run u show ?thesis by auto
      next
        case 2
        with q show ?thesis by simp
      next
        case 3
        with u show ?thesis by auto
      qed
    next
      case 2
      with q show ?thesis by simp
    qed
  qed
  have hdq: "hd (queue st) \<in> used st \<or> hd (queue st) = initial"
    using i3 qs by auto
  have g2: "\<forall>tr \<in> transitions st'.
         (\<exists>l. GlobalState_run (start tr) = Inr l \<and> end' tr \<in> set l) \<and>
         end' tr \<in> used st' \<and> (start tr \<in> used st' \<or> start tr = initial)"
  proof
    fix tr assume "tr \<in> transitions st'"
    with t consider "tr \<in> transitions st"
      | i where "i \<in> set new_states" "tr = \<lparr>start = hd (queue st), end' = i\<rparr>"
      by auto
    then show "(\<exists>l. GlobalState_run (start tr) = Inr l \<and> end' tr \<in> set l) \<and>
         end' tr \<in> used st' \<and> (start tr \<in> used st' \<or> start tr = initial)"
    proof cases
      case 1
      with i2 u show ?thesis by auto
    next
      case 2
      with run u hdq show ?thesis by auto
    qed
  qed
  have g3: "set (queue st') \<subseteq> insert initial (used st')"
    using i3 qs q u by auto
  from g1 g2 g3 show ?thesis by (simp add: explore_inv_def)
qed

lemmas explore_induct = explore.raw_induct[rotated 1, consumes 1, case_names unfold]

lemma explore_inv_final_aux:
  assumes "explore st = Some r"
  shows "explore_inv initial st \<longrightarrow> r = Inr (U, T) \<longrightarrow>
           explore_inv initial \<lparr>used = U, queue = [], transitions = T\<rparr>"
  using assms
proof (induct rule: explore_induct)
  case (unfold explore' st r)
  note IH = unfold(1) and eq = unfold(2)
  show ?case
  proof (cases "queue st = []")
    case True
    with eq have "r = Inr (used st, transitions st)" by simp
    with True show ?thesis by (auto simp: explore_inv_def)
  next
    case False
    show ?thesis
    proof (cases "loop_body st")
      case (Inl e)
      with False eq show ?thesis by auto
    next
      case (Inr st')
      with False eq have "explore' st' = Some r" by simp
      from IH[OF this] explore_inv_step[OF _ False Inr] show ?thesis by blast
    qed
  qed
qed

lemma explore_inv_final:
  "explore (start_of initial) = Some (Inr (U, T)) \<Longrightarrow>
   explore_inv initial \<lparr>used = U, queue = [], transitions = T\<rparr>"
  using explore_inv_final_aux[of "start_of initial" "Inr (U, T)" initial U T]
  by (simp add: explore_inv_start)

lemma loop_body_Inr:
  assumes "GlobalState_run (hd (queue st)) = Inr l"
  shows "loop_body st =
     Inr \<lparr>used = used st \<union> set (filter (\<lambda>s. s \<notin> used st) l),
          queue = tl (queue st) @ filter (\<lambda>s. s \<notin> used st) l,
          transitions = transitions st \<union> (\<lambda>i. \<lparr>start = hd (queue st), end' = i\<rparr>) ` set l\<rparr>"
  using assms by (simp add: loop_body_def Let_def)

lemma explore_returns:
  assumes fin: "finite R"
    and closed: "\<forall>c\<in>R. \<exists>l. GlobalState_run c = Inr l \<and> set l \<subseteq> R"
  shows "set (queue st) \<subseteq> R \<Longrightarrow> \<exists>U T. explore st = Some (Inr (U, T))"
proof (induction "2 * card (R - used st) + length (queue st)" arbitrary: st rule: less_induct)
  case less
  show ?case
  proof (cases "queue st")
    case Nil
    then show ?thesis by (subst explore.simps) simp
  next
    case (Cons item rest)
    with less.prems have "item \<in> R" by simp
    with closed obtain l where l: "GlobalState_run item = Inr l" and lR: "set l \<subseteq> R"
      by blast
    define clean where "clean = filter (\<lambda>s. s \<notin> used st) l"
    define st' where "st' = \<lparr>used = used st \<union> set clean, queue = rest @ clean,
          transitions = transitions st \<union> (\<lambda>i. \<lparr>start = item, end' = i\<rparr>) ` set l\<rparr>"
    from l Cons have body: "loop_body st = Inr st'"
      using loop_body_Inr[of st l] by (simp add: st'_def clean_def)
    from l have "distinct l" by (rule GlobalState_run_distinct)
    then have dc: "distinct clean" by (simp add: clean_def)
    from lR have sub: "set clean \<subseteq> R - used st" by (auto simp: clean_def)
    from fin have finD: "finite (R - used st)" by simp
    have "R - used st' = (R - used st) - set clean" by (auto simp: st'_def)
    then have "card (R - used st') = card (R - used st) - card (set clean)"
      using sub by (simp add: card_Diff_subset)
    moreover have "card (set clean) = length clean" using dc by (rule distinct_card)
    moreover have "card (set clean) \<le> card (R - used st)" using finD sub by (rule card_mono)
    ultimately have "2 * card (R - used st') + length (queue st')
                       < 2 * card (R - used st) + length (queue st)"
      by (simp add: st'_def Cons)
    moreover have "set (queue st') \<subseteq> R"
      using less.prems sub Cons by (auto simp: st'_def)
    ultimately have "\<exists>U T. explore st' = Some (Inr (U, T))" by (rule less.hyps)
    moreover have "explore st = explore st'"
      by (subst explore.simps) (simp add: Cons body)
    ultimately show ?thesis by simp
  qed
qed

subsection \<open>What the loop returns\<close>

lemma explore_inv2_start: "explore_inv2 initial (start_of initial)"
  by (simp add: explore_inv2_def start_of_def)

lemma successors_reach_plus:
  assumes "c = initial \<or> c \<in> reach_plus initial" and "d \<in> successors c"
  shows "d \<in> reach_plus initial"
proof -
  from assms(1) obtain m where "c \<in> reach_in m initial"
  proof
    assume "c = initial"
    then have "c \<in> reach_in 0 initial" by simp
    then show ?thesis by (rule that)
  next
    assume "c \<in> reach_plus initial"
    then obtain n where "c \<in> reach_in (Suc n) initial" by (auto simp: reach_plus_def)
    then show ?thesis by (rule that)
  qed
  with assms(2) have "d \<in> reach_in (Suc m) initial" by auto
  then show ?thesis unfolding reach_plus_def by blast
qed

lemma explore_inv2_step:
  assumes inv: "explore_inv2 initial st" and ne: "queue st \<noteq> []"
    and body: "loop_body st = Inr st'"
  shows "explore_inv2 initial st'"
proof -
  from body obtain new_states where
    run: "GlobalState_run (hd (queue st)) = Inr new_states" and
    u: "used st' = used st \<union> set new_states" and
    q: "queue st' = tl (queue st) @ filter (\<lambda>s. s \<notin> used st) new_states" and
    t: "transitions st' =
       transitions st \<union> (\<lambda>i. \<lparr>start = hd (queue st), end' = i\<rparr>) ` set new_states"
    by (rule loop_body_cases)
  let ?item = "hd (queue st)"
  from run have succ: "successors ?item = set new_states" by (simp add: successors_def)
  from ne have qs: "set (queue st) = insert ?item (set (tl (queue st)))"
    by (cases "queue st") auto
  from inv have i1: "initial \<in> set (queue st) \<or>
        (\<exists>l. GlobalState_run initial = Inr l \<and> set l \<subseteq> used st \<and>
             (\<forall>d \<in> set l. \<lparr>start = initial, end' = d\<rparr> \<in> transitions st))"
    and i2: "\<forall>c \<in> used st. c \<in> set (queue st) \<or>
        (\<forall>d \<in> successors c. \<lparr>start = c, end' = d\<rparr> \<in> transitions st)"
    and i3: "used st \<subseteq> reach_plus initial"
    and i4: "set (queue st) \<subseteq> insert initial (used st)"
    by (simp_all add: explore_inv2_def)
  have expanded: "\<forall>d \<in> set new_states. \<lparr>start = ?item, end' = d\<rparr> \<in> transitions st'"
    using t by simp
  have g1: "initial \<in> set (queue st') \<or>
        (\<exists>l. GlobalState_run initial = Inr l \<and> set l \<subseteq> used st' \<and>
             (\<forall>d \<in> set l. \<lparr>start = initial, end' = d\<rparr> \<in> transitions st'))"
  proof -
    from i1 consider "initial = ?item" | "initial \<in> set (tl (queue st))"
      | "\<exists>l. GlobalState_run initial = Inr l \<and> set l \<subseteq> used st \<and>
             (\<forall>d \<in> set l. \<lparr>start = initial, end' = d\<rparr> \<in> transitions st)"
      using qs by auto
    then show ?thesis
    proof cases
      case 1
      with run u expanded show ?thesis by auto
    next
      case 2
      with q show ?thesis by simp
    next
      case 3
      with u t show ?thesis by auto
    qed
  qed
  have g2: "\<forall>c \<in> used st'. c \<in> set (queue st') \<or>
        (\<forall>d \<in> successors c. \<lparr>start = c, end' = d\<rparr> \<in> transitions st')"
  proof
    fix c assume "c \<in> used st'"
    with u consider "c \<in> used st" | "c \<notin> used st" "c \<in> set new_states" by auto
    then show "c \<in> set (queue st') \<or>
        (\<forall>d \<in> successors c. \<lparr>start = c, end' = d\<rparr> \<in> transitions st')"
    proof cases
      case 1
      with i2 consider "c = ?item" | "c \<in> set (tl (queue st))"
        | "\<forall>d \<in> successors c. \<lparr>start = c, end' = d\<rparr> \<in> transitions st"
        using qs by auto
      then show ?thesis
      proof cases
        case 1
        with succ expanded show ?thesis by simp
      next
        case 2
        with q show ?thesis by simp
      next
        case 3
        with t show ?thesis by simp
      qed
    next
      case 2
      with q show ?thesis by simp
    qed
  qed
  have item: "?item = initial \<or> ?item \<in> reach_plus initial"
    using i3 i4 qs by auto
  have g3: "used st' \<subseteq> reach_plus initial"
  proof
    fix d assume "d \<in> used st'"
    with u consider "d \<in> used st" | "d \<in> successors ?item" using succ by auto
    then show "d \<in> reach_plus initial"
    proof cases
      case 1
      with i3 show ?thesis by auto
    next
      case 2
      with item show ?thesis by (rule successors_reach_plus)
    qed
  qed
  have g4: "set (queue st') \<subseteq> insert initial (used st')"
    using i4 qs q u by auto
  from g1 g2 g3 g4 show ?thesis by (simp add: explore_inv2_def)
qed

lemma explore_inv2_final_aux:
  assumes "explore st = Some r"
  shows "explore_inv2 initial st \<longrightarrow> r = Inr (U, T) \<longrightarrow>
           explore_inv2 initial \<lparr>used = U, queue = [], transitions = T\<rparr>"
  using assms
proof (induct rule: explore_induct)
  case (unfold explore' st r)
  note IH = unfold(1) and eq = unfold(2)
  show ?case
  proof (cases "queue st = []")
    case True
    with eq have "r = Inr (used st, transitions st)" by simp
    with True show ?thesis by (auto simp: explore_inv2_def)
  next
    case False
    show ?thesis
    proof (cases "loop_body st")
      case (Inl e)
      with False eq show ?thesis by auto
    next
      case (Inr st')
      with False eq have "explore' st' = Some r" by simp
      from IH[OF this] explore_inv2_step[OF _ False Inr] show ?thesis by blast
    qed
  qed
qed

lemma explore_inv2_final:
  "explore (start_of initial) = Some (Inr (U, T)) \<Longrightarrow>
   explore_inv2 initial \<lparr>used = U, queue = [], transitions = T\<rparr>"
  using explore_inv2_final_aux[of "start_of initial" "Inr (U, T)" initial U T]
  by (simp add: explore_inv2_start)

lemma explore_used_exact:
  assumes "explore (start_of initial) = Some (Inr (U, T))"
  shows "U = reach_plus initial"
proof
  from explore_inv2_final[OF assms] show "U \<subseteq> reach_plus initial"
    by (simp add: explore_inv2_def)
  have closed: "\<forall>c \<in> U. successors c \<subseteq> U"
  proof
    fix c assume "c \<in> U"
    with explore_inv_final[OF assms] obtain l where
      "GlobalState_run c = Inr l" "set l \<subseteq> U"
      by (auto simp: explore_inv_def)
    then show "successors c \<subseteq> U" by (simp add: successors_def)
  qed
  have first: "successors initial \<subseteq> U"
    using explore_inv2_final[OF assms] by (auto simp: explore_inv2_def successors_def)
  have "reach_in (Suc n) initial \<subseteq> U" for n
  proof (induction n)
    case 0
    with first show ?case by simp
  next
    case (Suc n)
    have "reach_in (Suc (Suc n)) initial = (\<Union>d \<in> reach_in (Suc n) initial. successors d)"
      by (simp only: reach_in.simps)
    with Suc closed show ?case by blast
  qed
  then show "reach_plus initial \<subseteq> U" by (auto simp: reach_plus_def)
qed

lemma explore_transitions_exact:
  assumes "explore (start_of initial) = Some (Inr (U, T))"
  shows "T = {\<lparr>start = c, end' = d\<rparr> | c d. c \<in> insert initial U \<and> d \<in> successors c}"
proof (intro equalityI subsetI)
  fix tr assume "tr \<in> T"
  with explore_inv_final[OF assms]
  have "(\<exists>l. GlobalState_run (start tr) = Inr l \<and> end' tr \<in> set l)"
    "start tr \<in> U \<or> start tr = initial"
    by (auto simp: explore_inv_def)
  then have "start tr \<in> insert initial U" "end' tr \<in> successors (start tr)"
    by (auto simp: successors_def)
  moreover have "tr = \<lparr>start = start tr, end' = end' tr\<rparr>" by simp
  ultimately show "tr \<in> {\<lparr>start = c, end' = d\<rparr> | c d. c \<in> insert initial U \<and> d \<in> successors c}"
    by blast
next
  fix tr assume "tr \<in> {\<lparr>start = c, end' = d\<rparr> | c d. c \<in> insert initial U \<and> d \<in> successors c}"
  then obtain c d where tr: "tr = \<lparr>start = c, end' = d\<rparr>"
    and c: "c = initial \<or> c \<in> U" and d: "d \<in> successors c" by auto
  from explore_inv2_final[OF assms]
  have a: "\<exists>l. GlobalState_run initial = Inr l \<and> (\<forall>d \<in> set l. \<lparr>start = initial, end' = d\<rparr> \<in> T)"
    and b: "\<forall>c \<in> U. \<forall>d \<in> successors c. \<lparr>start = c, end' = d\<rparr> \<in> T"
    by (auto simp: explore_inv2_def)
  from c show "tr \<in> T"
  proof
    assume "c = initial"
    with a d tr show ?thesis by (auto simp: successors_def)
  next
    assume "c \<in> U"
    with b d tr show ?thesis by blast
  qed
qed

section \<open>The model of main\<close>

lemma main_initial_eq: "main_initial = main_state 0 0 1 1 True"
  by (simp add: main_initial_def main_state_def P_thread_def Q_thread_def)

lemma main_inv_initial: "main_inv main_initial"
  unfolding main_inv_def main_initial_eq by blast

lemma set_a: "Memory_set \<lparr>vars = [''a'' \<mapsto> x, ''b'' \<mapsto> y]\<rparr> [(''a'', v)]
                = Inr \<lparr>vars = [''a'' \<mapsto> v, ''b'' \<mapsto> y]\<rparr>"
  by (auto simp: Memory_set_def assign_def fun_eq_iff)

lemma set_b: "Memory_set \<lparr>vars = [''a'' \<mapsto> x, ''b'' \<mapsto> y]\<rparr> [(''b'', v)]
                = Inr \<lparr>vars = [''a'' \<mapsto> x, ''b'' \<mapsto> v]\<rparr>"
  by (auto simp: Memory_set_def assign_def fun_eq_iff)

lemma P_thread_run:
  "Thread_run (P_thread 1) \<lparr>vars = [''a'' \<mapsto> x, ''b'' \<mapsto> y]\<rparr>
     = Inr (P_thread 2, \<lparr>vars = [''a'' \<mapsto> 1, ''b'' \<mapsto> y]\<rparr>)"
  "Thread_run (P_thread 2) \<lparr>vars = [''a'' \<mapsto> x, ''b'' \<mapsto> y]\<rparr>
     = Inr (P_thread (if y \<noteq> 0 then 2 else 3), \<lparr>vars = [''a'' \<mapsto> x, ''b'' \<mapsto> y]\<rparr>)"
  "Thread_run (P_thread 3) \<lparr>vars = [''a'' \<mapsto> x, ''b'' \<mapsto> y]\<rparr>
     = Inr (P_thread 4, \<lparr>vars = [''a'' \<mapsto> x, ''b'' \<mapsto> y]\<rparr>)"
  "Thread_run (P_thread 4) \<lparr>vars = [''a'' \<mapsto> x, ''b'' \<mapsto> y]\<rparr>
     = Inr (P_thread 1, \<lparr>vars = [''a'' \<mapsto> 0, ''b'' \<mapsto> y]\<rparr>)"
  by (simp_all add: Thread_run_def getitem_def P_thread_def P_states_def set_a Memory_get_def)

lemma Q_thread_run:
  "Thread_run (Q_thread 1 True) \<lparr>vars = [''a'' \<mapsto> x, ''b'' \<mapsto> y]\<rparr>
     = Inr (Q_thread 2 True, \<lparr>vars = [''a'' \<mapsto> x, ''b'' \<mapsto> 1]\<rparr>)"
  "Thread_run (Q_thread 2 True) \<lparr>vars = [''a'' \<mapsto> x, ''b'' \<mapsto> y]\<rparr>
     = Inr (if x = 0 then Q_thread 4 False else Q_thread 3 True,
            \<lparr>vars = [''a'' \<mapsto> x, ''b'' \<mapsto> y]\<rparr>)"
  "Thread_run (Q_thread 3 True) \<lparr>vars = [''a'' \<mapsto> x, ''b'' \<mapsto> y]\<rparr>
     = Inr (Q_thread 1 True, \<lparr>vars = [''a'' \<mapsto> x, ''b'' \<mapsto> 0]\<rparr>)"
  by (simp_all add: Thread_run_def getitem_def Q_thread_def Q_states_def set_b Memory_get_def)

lemma P_thread_step:
  assumes "p \<in> {1, 2, 3, 4}" and "x \<in> {0, 1}"
  shows "\<exists>p' x'. Thread_run (P_thread p) \<lparr>vars = [''a'' \<mapsto> x, ''b'' \<mapsto> y]\<rparr>
                    = Inr (P_thread p', \<lparr>vars = [''a'' \<mapsto> x', ''b'' \<mapsto> y]\<rparr>) \<and>
                  p' \<in> {1, 2, 3, 4} \<and> x' \<in> {0, 1}"
proof -
  from assms(1) consider "p = 1" | "p = 2" | "p = 3" | "p = 4" by auto
  then show ?thesis
  proof cases
    case 1
    have "(2::int) \<in> {1, 2, 3, 4}" "(1::int) \<in> {0, 1}" by simp_all
    with P_thread_run(1)[of x y] show ?thesis unfolding 1 by blast
  next
    case 2
    have "(if y \<noteq> 0 then 2 else 3::int) \<in> {1, 2, 3, 4}" by simp
    with P_thread_run(2)[of x y] assms(2) show ?thesis unfolding 2 by blast
  next
    case 3
    have "(4::int) \<in> {1, 2, 3, 4}" by simp
    with P_thread_run(3)[of x y] assms(2) show ?thesis unfolding 3 by blast
  next
    case 4
    have "(1::int) \<in> {1, 2, 3, 4}" "(0::int) \<in> {0, 1}" by simp_all
    with P_thread_run(4)[of x y] show ?thesis unfolding 4 by blast
  qed
qed

lemma Q_thread_step:
  assumes "q \<in> {1, 2, 3}" and "y \<in> {0, 1}"
  shows "\<exists>q' r' y'. Thread_run (Q_thread q True) \<lparr>vars = [''a'' \<mapsto> x, ''b'' \<mapsto> y]\<rparr>
                       = Inr (Q_thread q' r', \<lparr>vars = [''a'' \<mapsto> x, ''b'' \<mapsto> y']\<rparr>) \<and>
                     (r' \<and> q' \<in> {1, 2, 3} \<or> \<not> r' \<and> q' = 4) \<and> y' \<in> {0, 1}"
proof -
  from assms(1) consider "q = 1" | "q = 2" | "q = 3" by auto
  then show ?thesis
  proof cases
    case 1
    have "True \<and> (2::int) \<in> {1, 2, 3} \<or> \<not> True \<and> (2::int) = 4" "(1::int) \<in> {0, 1}"
      by simp_all
    with Q_thread_run(1)[of x y] show ?thesis unfolding 1 by blast
  next
    case 2
    show ?thesis
    proof (cases "x = 0")
      case True
      have "False \<and> (4::int) \<in> {1, 2, 3} \<or> \<not> False \<and> (4::int) = 4" by simp
      with Q_thread_run(2)[of x y] True assms(2) show ?thesis unfolding 2 by auto
    next
      case False
      have "True \<and> (3::int) \<in> {1, 2, 3} \<or> \<not> True \<and> (3::int) = 4" by simp
      with Q_thread_run(2)[of x y] False assms(2) show ?thesis unfolding 2 by auto
    qed
  next
    case 3
    have "True \<and> (1::int) \<in> {1, 2, 3} \<or> \<not> True \<and> (1::int) = 4" "(0::int) \<in> {0, 1}"
      by simp_all
    with Q_thread_run(3)[of x y] show ?thesis unfolding 3 by blast
  qed
qed

lemma main_inv_run:
  assumes "main_inv c"
  shows "\<exists>l. GlobalState_run c = Inr l"
proof -
  from assms obtain x y p q r where
    c: "c = main_state x y p q r" and x: "x \<in> {0, 1}" and y: "y \<in> {0, 1}"
    and p: "p \<in> {1, 2, 3, 4}" and q: "r \<and> q \<in> {1, 2, 3} \<or> \<not> r \<and> q = 4"
    by (auto simp: main_inv_def)
  have "\<forall>i\<in>set [0..<length (threads c)]. is_running (threads c ! i) \<longrightarrow>
      (\<exists>z. Thread_run (threads c ! i) (shared_memory c) = Inr z)"
  proof (intro ballI impI)
    fix i assume "i \<in> set [0..<length (threads c)]" and run: "is_running (threads c ! i)"
    then have "i = 0 \<or> i = 1" by (auto simp: c main_state_def)
    then show "\<exists>z. Thread_run (threads c ! i) (shared_memory c) = Inr z"
    proof
      assume "i = 0"
      with P_thread_step[OF p x, of y] show ?thesis by (auto simp: c main_state_def)
    next
      assume i: "i = 1"
      with run have "r" by (simp add: c main_state_def Q_thread_def)
      with q have "q \<in> {1, 2, 3}" by simp
      from Q_thread_step[OF this y, of x] i \<open>r\<close> show ?thesis
        by (auto simp: c main_state_def)
    qed
  qed
  then show ?thesis unfolding GlobalState_run_def by (rule run_loop_returns)
qed

lemma main_inv_successors:
  assumes "main_inv c" and "d \<in> successors c"
  shows "main_inv d"
proof -
  from assms(1) obtain x y p q r where
    c: "c = main_state x y p q r" and x: "x \<in> {0, 1}" and y: "y \<in> {0, 1}"
    and p: "p \<in> {1, 2, 3, 4}" and q: "r \<and> q \<in> {1, 2, 3} \<or> \<not> r \<and> q = 4"
    by (auto simp: main_inv_def)
  from main_inv_run[OF assms(1)] obtain l where l: "GlobalState_run c = Inr l" ..
  with assms(2) have "d \<in> candidates c {..<length (threads c)}"
    using GlobalState_run_set[OF l] by (simp add: successors_def)
  then obtain i t' sh' where
    d: "d = \<lparr>shared_memory = sh', threads = (threads c)[i := t']\<rparr>"
    and i: "i < length (threads c)" and run: "is_running (threads c ! i)"
    and step: "Thread_run (threads c ! i) (shared_memory c) = Inr (t', sh')"
    by (auto simp: candidates_def)
  from i have "i = 0 \<or> i = 1" by (auto simp: c main_state_def)
  then show ?thesis
  proof
    assume i0: "i = 0"
    from P_thread_step[OF p x, of y] step i0 obtain p' x' where
      "t' = P_thread p'" "sh' = \<lparr>vars = [''a'' \<mapsto> x', ''b'' \<mapsto> y]\<rparr>"
      "p' \<in> {1, 2, 3, 4}" "x' \<in> {0, 1}"
      by (auto simp: c main_state_def)
    with q y have "d = main_state x' y p' q r \<and> x' \<in> {0, 1} \<and> y \<in> {0, 1} \<and>
        p' \<in> {1, 2, 3, 4} \<and> (r \<and> q \<in> {1, 2, 3} \<or> \<not> r \<and> q = 4)"
      by (simp add: d c i0 main_state_def)
    then show ?thesis unfolding main_inv_def by blast
  next
    assume i1: "i = 1"
    with run have "r" by (simp add: c main_state_def Q_thread_def)
    with q have "q \<in> {1, 2, 3}" by simp
    from Q_thread_step[OF this y, of x] step i1 \<open>r\<close> obtain q' r' y' where
      "t' = Q_thread q' r'" "sh' = \<lparr>vars = [''a'' \<mapsto> x, ''b'' \<mapsto> y']\<rparr>"
      "r' \<and> q' \<in> {1, 2, 3} \<or> \<not> r' \<and> q' = 4" "y' \<in> {0, 1}"
      by (auto simp: c main_state_def)
    with p x have "d = main_state x y' p q' r' \<and> x \<in> {0, 1} \<and> y' \<in> {0, 1} \<and>
        p \<in> {1, 2, 3, 4} \<and> (r' \<and> q' \<in> {1, 2, 3} \<or> \<not> r' \<and> q' = 4)"
      by (simp add: d c i1 main_state_def)
    then show ?thesis unfolding main_inv_def by blast
  qed
qed

lemma main_inv_reach: "c \<in> reach_in n main_initial \<Longrightarrow> main_inv c"
proof (induction n arbitrary: c)
  case 0
  then show ?case by (simp add: main_inv_initial)
next
  case (Suc n)
  then show ?case by (auto intro: main_inv_successors)
qed

lemma main_inv_current_state:
  "main_inv c \<Longrightarrow> \<forall>t \<in> set (threads c). current_state t \<noteq> 0"
  by (auto simp: main_inv_def main_state_def P_thread_def Q_thread_def)

lemma finite_main_inv: "finite {c. main_inv c}"
proof -
  let ?D = "{0, 1} \<times> {0, 1} \<times> {1, 2, 3, 4} \<times> {1, 2, 3, 4} \<times> (UNIV :: bool set)"
  let ?f = "\<lambda>(x, y, p, q, r). main_state x y p q r"
  have "{c. main_inv c} \<subseteq> ?f ` ?D"
  proof
    fix c assume "c \<in> {c. main_inv c}"
    then obtain x y p q r where
      c: "c = main_state x y p q r" and x: "x \<in> {0, 1}" and y: "y \<in> {0, 1}"
      and p: "p \<in> {1, 2, 3, 4}" and q: "r \<and> q \<in> {1, 2, 3} \<or> \<not> r \<and> q = 4"
      unfolding main_inv_def by blast
    from q have "q \<in> {1, 2, 3, 4}" by auto
    with x y p have "(x, y, p, q, r) \<in> ?D" by simp
    moreover have "c = ?f (x, y, p, q, r)" by (simp add: c)
    ultimately show "c \<in> ?f ` ?D" by (rule rev_image_eqI)
  qed
  moreover have "finite ?D" by simp
  ultimately show ?thesis by (blast intro: finite_subset)
qed

lemma main_returns: "\<exists>U T. main = Some (Inr (U, T))"
  unfolding main_def
proof (rule explore_returns[of "{c. main_inv c}"])
  show "finite {c. main_inv c}" by (rule finite_main_inv)
  show "\<forall>c\<in>{c. main_inv c}. \<exists>l. GlobalState_run c = Inr l \<and> set l \<subseteq> {c. main_inv c}"
  proof
    fix c assume "c \<in> {c. main_inv c}"
    then have c: "main_inv c" by simp
    from main_inv_run[OF c] obtain l where l: "GlobalState_run c = Inr l" ..
    then have "set l = successors c" by (simp add: successors_def)
    with c have "set l \<subseteq> {c. main_inv c}" by (auto intro: main_inv_successors)
    with l show "\<exists>l. GlobalState_run c = Inr l \<and> set l \<subseteq> {c. main_inv c}" by blast
  qed
  show "set (queue (start_of main_initial)) \<subseteq> {c. main_inv c}"
    by (simp add: start_of_def main_inv_initial)
qed

lemma not_nop: "(\<And>sh lo. \<exists>a b c d. f sh lo = Tuple4 a b c d) \<Longrightarrow> f \<noteq> nop"
proof
  assume t4: "\<And>sh lo. \<exists>a b c d. f sh lo = Tuple4 a b c d" and "f = nop"
  then have "f \<lparr>vars = Map.empty\<rparr> \<lparr>vars = Map.empty\<rparr>
               = Tuple3 \<lparr>vars = Map.empty\<rparr> \<lparr>vars = Map.empty\<rparr> 1"
    by (simp add: nop_def)
  with t4[of "\<lparr>vars = Map.empty\<rparr>" "\<lparr>vars = Map.empty\<rparr>"] show False by auto
qed

lemma P_getitem:
  assumes "p \<in> {1, 2, 3, 4}"
  shows "\<exists>f. getitem P_states p = Inr f \<and> f \<noteq> nop"
proof -
  from assms consider "p = 1" | "p = 2" | "p = 3" | "p = 4" by auto
  then show ?thesis
    by cases (auto simp: getitem_def P_states_def Memory_set_def intro!: not_nop)
qed

lemma Q_getitem:
  assumes "q \<in> {1, 2, 3}"
  shows "\<exists>f. getitem Q_states q = Inr f \<and> f \<noteq> nop"
proof -
  from assms consider "q = 1" | "q = 2" | "q = 3" by auto
  then show ?thesis
    by cases (auto simp: getitem_def Q_states_def Memory_set_def intro!: not_nop)
qed

lemma main_inv_not_nop:
  assumes "main_inv c" and "t \<in> set (threads c)" and "is_running t"
  shows "\<exists>f. getitem (states t) (current_state t) = Inr f \<and> f \<noteq> nop"
proof -
  from assms(1) obtain x y p q r where
    c: "c = main_state x y p q r"
    and p: "p \<in> {1, 2, 3, 4}" and q: "r \<and> q \<in> {1, 2, 3} \<or> \<not> r \<and> q = 4"
    by (auto simp: main_inv_def)
  from assms(2) have "t = P_thread p \<or> t = Q_thread q r" by (auto simp: c main_state_def)
  then show ?thesis
  proof
    assume "t = P_thread p"
    with P_getitem[OF p] show ?thesis by (simp add: P_thread_def)
  next
    assume t: "t = Q_thread q r"
    with assms(3) have "r" by (simp add: Q_thread_def)
    with q have "q \<in> {1, 2, 3}" by simp
    from Q_getitem[OF this] t show ?thesis by (simp add: Q_thread_def)
  qed
qed

section \<open>Runs of the small models\<close>

lemma scenarioA_run: "GlobalState_run scenarioA = Inr [scenarioA1]"
  by (simp add: GlobalState_run_def scenarioA_def scenarioA1_def scenarioA_thread_def
      Thread_run_def getitem_def Memory_set_def assign_def set_add_def)

lemma scenarioA1_run: "GlobalState_run scenarioA1 = Inl IndexError"
  by (simp add: GlobalState_run_def scenarioA1_def scenarioA_thread_def
      Thread_run_def getitem_def)

lemma scenarioA_body:
  "loop_body (start_of scenarioA) =
     Inr \<lparr>used = {scenarioA1}, queue = [scenarioA1],
          transitions = {\<lparr>start = scenarioA, end' = scenarioA1\<rparr>}\<rparr>"
  by (simp add: loop_body_def start_of_def scenarioA_run)

lemma scenarioA1_body:
  "loop_body \<lparr>used = {scenarioA1}, queue = [scenarioA1],
          transitions = {\<lparr>start = scenarioA, end' = scenarioA1\<rparr>}\<rparr> = Inl IndexError"
  by (simp add: loop_body_def scenarioA1_run)

lemma explore_scenarioA: "explore (start_of scenarioA) = Some (Inl IndexError)"
proof -
  have "explore (start_of scenarioA) =
          explore \<lparr>used = {scenarioA1}, queue = [scenarioA1],
                   transitions = {\<lparr>start = scenarioA, end' = scenarioA1\<rparr>}\<rparr>"
    by (subst explore.simps) (simp add: scenarioA_body, simp add: start_of_def)
  also have "\<dots> = Some (Inl IndexError)"
    by (subst explore.simps) (simp add: scenarioA1_body)
  finally show ?thesis .
qed

lemma halting_run: "GlobalState_run halting = Inr [halted]"
  by (simp add: GlobalState_run_def halting_def halted_def halt_thread_def
      Thread_run_def getitem_def set_add_def)

lemma halted_run: "GlobalState_run halted = Inr []"
  by (simp add: GlobalState_run_def halted_def halt_thread_def)

lemma halting_neq_halted: "halting \<noteq> halted"
  by (simp add: halting_def halted_def halt_thread_def)

lemma explore_halting:
  "explore (start_of halting) = Some (Inr ({halted}, {\<lparr>start = halting, end' = halted\<rparr>}))"
proof -
  let ?T = "{\<lparr>start = halting, end' = halted\<rparr>}"
  have b1: "loop_body (start_of halting) = Inr \<lparr>used = {halted}, queue = [halted], transitions = ?T\<rparr>"
    by (simp add: loop_body_def start_of_def halting_run)
  have b2: "loop_body \<lparr>used = {halted}, queue = [halted], transitions = ?T\<rparr> =
          Inr \<lparr>used = {halted}, queue = [], transitions = ?T\<rparr>"
    by (simp add: loop_body_def halted_run)
  have "explore (start_of halting) = explore \<lparr>used = {halted}, queue = [halted], transitions = ?T\<rparr>"
    by (subst explore.simps) (simp add: b1, simp add: start_of_def)
  also have "\<dots> = explore \<lparr>used = {halted}, queue = [], transitions = ?T\<rparr>"
    by (subst explore.simps) (simp add: b2)
  also have "\<dots> = Some (Inr ({halted}, ?T))"
    by (subst explore.simps) simp
  finally show ?thesis .
qed

lemma flip_run: "GlobalState_run (flip 0) = Inr [flip 1]" "GlobalState_run (flip 1) = Inr [flip 0]"
  by (simp_all add: GlobalState_run_def flip_def flip_thread_def
      Thread_run_def getitem_def set_add_def)

lemma flip_neq: "flip 0 \<noteq> flip 1" "flip 1 \<noteq> flip 0"
  by (simp_all add: flip_def flip_thread_def)

lemma explore_flip:
  "explore (start_of (flip 0)) =
     Some (Inr ({flip 0, flip 1},
                {\<lparr>start = flip 0, end' = flip 1\<rparr>, \<lparr>start = flip 1, end' = flip 0\<rparr>}))"
proof -
  let ?t01 = "\<lparr>start = flip 0, end' = flip 1\<rparr>"
  let ?t10 = "\<lparr>start = flip 1, end' = flip 0\<rparr>"
  have b1: "loop_body (start_of (flip 0)) =
              Inr \<lparr>used = {flip 1}, queue = [flip 1], transitions = {?t01}\<rparr>"
    by (simp add: loop_body_def start_of_def flip_run)
  have b2: "loop_body \<lparr>used = {flip 1}, queue = [flip 1], transitions = {?t01}\<rparr> =
              Inr \<lparr>used = {flip 0, flip 1}, queue = [flip 0], transitions = {?t01, ?t10}\<rparr>"
    by (auto simp: loop_body_def Let_def flip_run flip_neq)
  have b3: "loop_body \<lparr>used = {flip 0, flip 1}, queue = [flip 0], transitions = {?t01, ?t10}\<rparr> =
              Inr \<lparr>used = {flip 0, flip 1}, queue = [], transitions = {?t01, ?t10}\<rparr>"
    by (auto simp: loop_body_def Let_def flip_run flip_neq)
  have "explore (start_of (flip 0)) =
          explore \<lparr>used = {flip 1}, queue = [flip 1], transitions = {?t01}\<rparr>"
    by (subst explore.simps) (simp add: b1, simp add: start_of_def)
  also have "\<dots> = explore \<lparr>used = {flip 0, flip 1}, queue = [flip 0], transitions = {?t01, ?t10}\<rparr>"
    by (subst explore.simps) (simp add: b2)
  also have "\<dots> = explore \<lparr>used = {flip 0, flip 1}, queue = [], transitions = {?t01, ?t10}\<rparr>"
    by (subst explore.simps) (simp add: b3)
  also have "\<dots> = Some (Inr ({flip 0, flip 1}, {?t01, ?t10}))"
    by (subst explore.simps) simp
  finally show ?thesis .
qed

lemma main_state_eq_iff:
  "main_state x y p q r = main_state x' y' p' q' r' \<longleftrightarrow>
     x = x' \<and> y = y' \<and> p = p' \<and> q = q' \<and> r = r'"
proof
  assume eq: "main_state x y p q r = main_state x' y' p' q' r'"
  then have m: "[''a'' \<mapsto> x, ''b'' \<mapsto> y] = [''a'' \<mapsto> x', ''b'' \<mapsto> y']"
    and t: "p = p'" "q = q'" "r = r'"
    by (simp_all add: main_state_def P_thread_def Q_thread_def)
  from fun_cong[OF m, of "''a''"] fun_cong[OF m, of "''b''"] t
  show "x = x' \<and> y = y' \<and> p = p' \<and> q = q' \<and> r = r'" by simp
qed simp

subsection \<open>Single steps of the model of main\<close>

lemma P_running: "is_running (P_thread p)"
  by (simp add: P_thread_def)

lemma Q_running: "is_running (Q_thread q r) = r"
  by (simp add: Q_thread_def)

lemma P_thread_eq: "P_thread p = P_thread p' \<longleftrightarrow> p = p'"
  by (simp add: P_thread_def)

lemma Q_thread_eq: "Q_thread q r = Q_thread q' r' \<longleftrightarrow> q = q' \<and> r = r'"
  by (simp add: Q_thread_def)

lemma main_state_sel:
  "threads (main_state x y p q r) = [P_thread p, Q_thread q r]"
  "shared_memory (main_state x y p q r) = \<lparr>vars = [''a'' \<mapsto> x, ''b'' \<mapsto> y]\<rparr>"
  by (simp_all add: main_state_def)

lemma main_state_fold:
  "\<lparr>shared_memory = \<lparr>vars = [''a'' \<mapsto> x, ''b'' \<mapsto> y]\<rparr>,
    threads = [P_thread p, Q_thread q r]\<rparr> = main_state x y p q r"
  by (simp add: main_state_def)

lemma main_state_run_both:
  "GlobalState_run (main_state x y 1 1 True) =
     Inr [main_state 1 y 2 1 True, main_state x 1 1 2 True]"
  by (simp add: GlobalState_run_def main_state_sel P_thread_run Q_thread_run P_running
      Q_running set_add_def Let_def P_thread_eq Q_thread_eq main_state_fold)

lemma main_state_run_P_only:
  "GlobalState_run (main_state x y 1 4 False) = Inr [main_state 1 y 2 4 False]"
  by (simp add: GlobalState_run_def main_state_sel P_thread_run P_running
      Q_running set_add_def Let_def main_state_fold)

lemma run_loop_all_stopped:
  "\<forall>i\<in>set is. \<not> is_running (threads c ! i) \<Longrightarrow> run_loop c is acc = Inr acc"
  by (induction "is" arbitrary: acc) simp_all

lemma GlobalState_run_terminal:
  assumes "\<forall>t \<in> set (threads c). \<not> is_running t"
  shows "GlobalState_run c = Inr []"
  unfolding GlobalState_run_def
  by (rule run_loop_all_stopped) (use assms in auto)

lemma explore_transition_endpoints:
  assumes "explore (start_of initial) = Some (Inr (U, T))" and "tr \<in> T"
  shows "end' tr \<in> U \<and> (start tr \<in> U \<or> start tr = initial)"
  using explore_inv_final[OF assms(1)] assms(2) by (auto simp: explore_inv_def)

subsection \<open>The initial state of main is reached again\<close>

lemma main_invI:
  "x \<in> {0, 1} \<Longrightarrow> y \<in> {0, 1} \<Longrightarrow> p \<in> {1, 2, 3, 4} \<Longrightarrow>
   r \<and> q \<in> {1, 2, 3} \<or> \<not> r \<and> q = 4 \<Longrightarrow> main_inv (main_state x y p q r)"
  unfolding main_inv_def by blast

lemma main_P_successor:
  assumes inv: "main_inv (main_state x y p q r)"
    and step: "Thread_run (P_thread p) \<lparr>vars = [''a'' \<mapsto> x, ''b'' \<mapsto> y]\<rparr> =
                 Inr (P_thread p', \<lparr>vars = [''a'' \<mapsto> x', ''b'' \<mapsto> y]\<rparr>)"
  shows "main_state x' y p' q r \<in> successors (main_state x y p q r)"
proof -
  let ?c = "main_state x y p q r"
  from main_inv_run[OF inv] obtain l where l: "GlobalState_run ?c = Inr l" ..
  have "main_state x' y p' q r =
          \<lparr>shared_memory = \<lparr>vars = [''a'' \<mapsto> x', ''b'' \<mapsto> y]\<rparr>,
           threads = (threads ?c)[0 := P_thread p']\<rparr>"
    by (simp add: main_state_def)
  moreover have "0 \<in> {..<length (threads ?c)}" "is_running (threads ?c ! 0)"
    "Thread_run (threads ?c ! 0) (shared_memory ?c) =
       Inr (P_thread p', \<lparr>vars = [''a'' \<mapsto> x', ''b'' \<mapsto> y]\<rparr>)"
    using step by (simp_all add: main_state_sel P_running)
  ultimately have "main_state x' y p' q r \<in> candidates ?c {..<length (threads ?c)}"
    unfolding candidates_def by blast
  with GlobalState_run_set[OF l] l show ?thesis by (simp add: successors_def)
qed

lemma reach_in_Suc: "c \<in> reach_in n i \<Longrightarrow> d \<in> successors c \<Longrightarrow> d \<in> reach_in (Suc n) i"
  by auto

lemma main_initial_cycle: "main_initial \<in> reach_plus main_initial"
proof -
  have s1: "main_state 1 0 2 1 True \<in> successors (main_state 0 0 1 1 True)"
    by (rule main_P_successor) (simp_all add: main_invI P_thread_run)
  have s2: "main_state 1 0 3 1 True \<in> successors (main_state 1 0 2 1 True)"
    using main_P_successor[of 1 0 2 1 True 3 1] by (simp add: main_invI P_thread_run)
  have s3: "main_state 1 0 4 1 True \<in> successors (main_state 1 0 3 1 True)"
    by (rule main_P_successor) (simp_all add: main_invI P_thread_run)
  have s4: "main_state 0 0 1 1 True \<in> successors (main_state 1 0 4 1 True)"
    by (rule main_P_successor) (simp_all add: main_invI P_thread_run)
  have "main_state 0 0 1 1 True \<in> reach_in 0 (main_state 0 0 1 1 True)" by simp
  from reach_in_Suc[OF reach_in_Suc[OF reach_in_Suc[OF reach_in_Suc[OF this s1] s2] s3] s4]
  show ?thesis unfolding reach_plus_def main_initial_eq by blast
qed

lemma main_used_has_initial:
  assumes "main = Some (Inr (U, T))"
  shows "main_initial \<in> U"
  using explore_used_exact[of main_initial U T] assms main_initial_cycle
  by (simp add: main_def)

lemma halting_not_reached_again: "halting \<notin> reach_plus halting"
  using explore_used_exact[OF explore_halting] halting_neq_halted by auto

section \<open>The claims\<close>

text \<open>
  Claim C1: the exploration starts with the initial state in its visited set, and when the
  loop ends the initial state is in the returned visited set, for every model. The loop of
  main starts with \<open>used\<close> empty and only queues the initial state. For the model
  whose single thread stops at its first step, the initial state is not in \<open>used\<close>
  before the loop and not in the returned \<open>used\<close> either.
\<close>

theorem initial_missing_from_used:
  "halting \<notin> used (start_of halting) \<and>
   explore (start_of halting) = Some (Inr ({halted}, {\<lparr>start = halting, end' = halted\<rparr>})) \<and>
   halting \<notin> {halted}"
  using explore_halting halting_neq_halted by (simp add: start_of_def)

text \<open>
  Claim C2: when the exploration loop ends, every successor of every state in the returned
  visited set is in that set: \<open>GlobalState.run\<close> returns on each such state and all the
  states it returns are in the set.
\<close>

theorem explore_closed_under_successors:
  assumes "explore (start_of initial) = Some (Inr (U, T))" and "c \<in> U"
  shows "\<exists>l. GlobalState_run c = Inr l \<and> set l \<subseteq> U"
  using explore_inv_final[OF assms(1)] assms(2) by (auto simp: explore_inv_def)

theorem explore_closed_under_successors_witness:
  "explore (start_of (flip 0)) =
     Some (Inr ({flip 0, flip 1},
                {\<lparr>start = flip 0, end' = flip 1\<rparr>, \<lparr>start = flip 1, end' = flip 0\<rparr>})) \<and>
   flip 0 \<in> {flip 0, flip 1} \<and>
   GlobalState_run (flip 0) = Inr [flip 1] \<and>
   (\<exists>l. GlobalState_run (flip 0) = Inr l \<and> set l \<subseteq> {flip 0, flip 1})"
  using explore_closed_under_successors[OF explore_flip, of "flip 0"] explore_flip flip_run
  by simp

text \<open>
  Claim C3: \<open>GlobalState.run\<close> returns exactly the states obtained by stepping one running
  thread: for each index i whose thread is running, the receiver with the shared memory
  returned by the step of thread i and with thread i replaced by the returned thread, the
  other threads unchanged. No state comes from a thread that is not running, and equal
  states coming from different indices are one element. The method returns whenever the
  step of every running thread returns.
\<close>

theorem GlobalState_run_exact:
  "(GlobalState_run c = Inr l \<longrightarrow>
      distinct l \<and>
      set l =
        {\<lparr>shared_memory = sh', threads = (threads c)[i := t']\<rparr> | i t' sh'.
           i < length (threads c) \<and> is_running (threads c ! i) \<and>
           Thread_run (threads c ! i) (shared_memory c) = Inr (t', sh')}) \<and>
   ((\<forall>i<length (threads c). is_running (threads c ! i) \<longrightarrow>
        (\<exists>r. Thread_run (threads c ! i) (shared_memory c) = Inr r)) \<longrightarrow>
    (\<exists>l. GlobalState_run c = Inr l))"
proof (intro conjI impI)
  assume "GlobalState_run c = Inr l"
  then show "distinct l" by (rule GlobalState_run_distinct)
next
  assume "GlobalState_run c = Inr l"
  from GlobalState_run_set[OF this] show "set l =
        {\<lparr>shared_memory = sh', threads = (threads c)[i := t']\<rparr> | i t' sh'.
           i < length (threads c) \<and> is_running (threads c ! i) \<and>
           Thread_run (threads c ! i) (shared_memory c) = Inr (t', sh')}"
    by (simp add: candidates_def)
next
  assume "\<forall>i<length (threads c). is_running (threads c ! i) \<longrightarrow>
        (\<exists>r. Thread_run (threads c ! i) (shared_memory c) = Inr r)"
  then show "\<exists>l. GlobalState_run c = Inr l"
    using run_loop_returns[of "[0..<length (threads c)]" c "[]"]
    by (simp add: GlobalState_run_def)
qed

theorem GlobalState_run_exact_witness:
  "GlobalState_run (main_state 0 0 1 1 True) =
     Inr [main_state 1 0 2 1 True, main_state 0 1 1 2 True] \<and>
   distinct [main_state 1 0 2 1 True, main_state 0 1 1 2 True] \<and>
   {main_state 1 0 2 1 True, main_state 0 1 1 2 True} =
     {\<lparr>shared_memory = sh', threads = (threads (main_state 0 0 1 1 True))[i := t']\<rparr> | i t' sh'.
        i < length (threads (main_state 0 0 1 1 True)) \<and>
        is_running (threads (main_state 0 0 1 1 True) ! i) \<and>
        Thread_run (threads (main_state 0 0 1 1 True) ! i)
          (shared_memory (main_state 0 0 1 1 True)) = Inr (t', sh')} \<and>
   length (threads (main_state 0 0 1 1 True)) = 2 \<and>
   Thread_run (threads (main_state 0 0 1 1 True) ! 0) (shared_memory (main_state 0 0 1 1 True)) =
     Inr (P_thread 2, \<lparr>vars = [''a'' \<mapsto> 1, ''b'' \<mapsto> 0]\<rparr>) \<and>
   Thread_run (threads (main_state 0 0 1 1 True) ! 1) (shared_memory (main_state 0 0 1 1 True)) =
     Inr (Q_thread 2 True, \<lparr>vars = [''a'' \<mapsto> 0, ''b'' \<mapsto> 1]\<rparr>)"
proof -
  let ?c = "main_state 0 0 1 1 True"
  let ?l = "[main_state 1 0 2 1 True, main_state 0 1 1 2 True]"
  have run: "GlobalState_run ?c = Inr ?l" by (rule main_state_run_both)
  have steps: "length (threads ?c) = 2"
    "Thread_run (threads ?c ! 0) (shared_memory ?c) =
       Inr (P_thread 2, \<lparr>vars = [''a'' \<mapsto> 1, ''b'' \<mapsto> 0]\<rparr>)"
    "Thread_run (threads ?c ! 1) (shared_memory ?c) =
       Inr (Q_thread 2 True, \<lparr>vars = [''a'' \<mapsto> 0, ''b'' \<mapsto> 1]\<rparr>)"
    by (simp_all add: main_state_sel P_thread_run Q_thread_run)
  from GlobalState_run_exact[of ?c ?l] run have
    "distinct ?l \<and> set ?l =
       {\<lparr>shared_memory = sh', threads = (threads ?c)[i := t']\<rparr> | i t' sh'.
          i < length (threads ?c) \<and> is_running (threads ?c ! i) \<and>
          Thread_run (threads ?c ! i) (shared_memory ?c) = Inr (t', sh')}"
    by blast
  with run steps show ?thesis by simp
qed

text \<open>
  Claim C4: every transition in the returned set of transitions has both its start and its
  end in the returned visited set, for every model. For the model whose single thread stops
  at its first step, the loop returns one transition; its end is in the returned
  \<open>used\<close> and its start, the initial state, is not.
\<close>

theorem transition_start_missing_from_used:
  "explore (start_of halting) = Some (Inr ({halted}, {\<lparr>start = halting, end' = halted\<rparr>})) \<and>
   start \<lparr>start = halting, end' = halted\<rparr> \<notin> {halted} \<and>
   end' \<lparr>start = halting, end' = halted\<rparr> \<in> {halted}"
  using explore_halting halting_neq_halted by simp

text \<open>
  Claim C5, as amended: \<open>Thread.run\<close> does not look at \<open>is_running\<close>; on a thread whose
  flag is false it performs the same step, with the same result, as on the same thread with
  the flag true.
\<close>

theorem Thread_run_ignores_is_running:
  "Thread_run (t\<lparr>is_running := False\<rparr>) m = Thread_run (t\<lparr>is_running := True\<rparr>) m"
  by (simp add: Thread_run_def split: sum.splits retval.splits)

text \<open>
  Claim C5 as stated (calling \<open>Thread.run\<close> on a thread that is not running fails instead
  of returning an updated thread) is false: on the stopped thread of the model above the
  call returns a thread and a shared memory.
\<close>

theorem Thread_run_on_stopped_thread:
  "\<not> is_running (halt_thread False) \<and>
   Thread_run (halt_thread False) \<lparr>vars = Map.empty\<rparr> =
     Inr (halt_thread False, \<lparr>vars = Map.empty\<rparr>)"
  by (simp add: halt_thread_def Thread_run_def getitem_def)

text \<open>
  Claim C6: a state all of whose threads have \<open>is_running\<close> false is terminal:
  \<open>GlobalState.run\<close> returns the empty set on it, and no transition in the set returned by
  the exploration loop starts at it, whatever the initial state.
\<close>

theorem terminal_no_successors:
  assumes "\<forall>t \<in> set (threads c). \<not> is_running t"
  shows "GlobalState_run c = Inr [] \<and>
         (\<forall>initial U T. explore (start_of initial) = Some (Inr (U, T)) \<longrightarrow>
            (\<forall>tr \<in> T. start tr \<noteq> c))"
proof (intro conjI allI impI ballI)
  from assms show run: "GlobalState_run c = Inr []" by (rule GlobalState_run_terminal)
  fix initial U T tr
  assume "explore (start_of initial) = Some (Inr (U, T))" and "tr \<in> T"
  from explore_inv_final[OF this(1)] this(2)
  obtain l where "GlobalState_run (start tr) = Inr l" "end' tr \<in> set l"
    by (auto simp: explore_inv_def)
  with run show "start tr \<noteq> c" by auto
qed

theorem terminal_no_successors_witness:
  "threads halted = [halt_thread False] \<and> \<not> is_running (halt_thread False) \<and>
   GlobalState_run halted = Inr [] \<and>
   explore (start_of halting) = Some (Inr ({halted}, {\<lparr>start = halting, end' = halted\<rparr>})) \<and>
   start \<lparr>start = halting, end' = halted\<rparr> \<noteq> halted"
proof -
  have t: "threads halted = [halt_thread False]" "\<not> is_running (halt_thread False)"
    by (simp_all add: halted_def halt_thread_def)
  then have h: "\<forall>t \<in> set (threads halted). \<not> is_running t" by simp
  from terminal_no_successors[OF h] explore_halting
  have "GlobalState_run halted = Inr []"
    "\<forall>tr \<in> {\<lparr>start = halting, end' = halted\<rparr>}. start tr \<noteq> halted"
    by blast+
  with t explore_halting show ?thesis by simp
qed

text \<open>
  Claim C7, as amended: on scenario A the exploration does not return a result. The initial
  state has the single successor with x = 1 at position 1; expanding that successor indexes
  the one-entry table at 1, which raises an index error, and the error ends the loop.
\<close>

theorem scenarioA_raises:
  "GlobalState_run scenarioA = Inr [scenarioA1] \<and>
   GlobalState_run scenarioA1 = Inl IndexError \<and>
   explore (start_of scenarioA) = Some (Inl IndexError)"
  using scenarioA_run scenarioA1_run explore_scenarioA by simp

text \<open>
  Claim C7 as stated (the loop returns the two states and the two transitions, one of them
  a self-loop at position 1) is false.
\<close>

theorem scenarioA_not_two_states:
  "explore (start_of scenarioA) \<noteq>
     Some (Inr ({scenarioA, scenarioA1},
                {\<lparr>start = scenarioA, end' = scenarioA1\<rparr>,
                 \<lparr>start = scenarioA1, end' = scenarioA1\<rparr>}))"
  by (simp add: explore_scenarioA)

text \<open>
  Claim C8, as amended: for keyword arguments none of which is named \<open>self\<close>,
  \<open>Memory.set\<close> returns a memory in which every given key has its given value and every
  other key has the value it had in the receiver; the receiver is unchanged: in the store,
  the dictionary of the receiver is the same after the call, and the result is another
  object. A keyword named \<open>self\<close> makes the call raise a type error instead.
\<close>

theorem Memory_set_frame:
  "(distinct (map fst kwargs) \<and> ''self'' \<notin> fst ` set kwargs \<longrightarrow>
      (\<exists>m'. Memory_set m kwargs = Inr m' \<and>
         (\<forall>(k, v) \<in> set kwargs. Memory_get m' k = Some v) \<and>
         (\<forall>k. k \<notin> fst ` set kwargs \<longrightarrow> Memory_get m' k = Memory_get m k)) \<and>
      (\<forall>h self. self < length h \<longrightarrow>
         (\<exists>r h'. Memory_set_store h self kwargs = Inr (r, h') \<and>
            h' ! self = h ! self \<and> r \<noteq> self \<and>
            Memory_set \<lparr>vars = h ! self\<rparr> kwargs = Inr \<lparr>vars = h' ! r\<rparr>))) \<and>
   (''self'' \<in> fst ` set kwargs \<longrightarrow>
      Memory_set m kwargs = Inl TypeError \<and>
      (\<forall>h self. Memory_set_store h self kwargs = Inl TypeError))"
proof (intro conjI impI)
  assume ok: "distinct (map fst kwargs) \<and> ''self'' \<notin> fst ` set kwargs"
  then have d: "distinct (map fst kwargs)" and ns: "''self'' \<notin> fst ` set kwargs"
    by simp_all
  from Memory_get_set[OF ns, of m] obtain m' where
    m': "Memory_set m kwargs = Inr m'"
    and get: "\<And>k. Memory_get m' k =
        (case map_of (rev kwargs) k of None \<Rightarrow> Memory_get m k | Some v \<Rightarrow> Some v)"
    by blast
  have given: "\<forall>(k, v) \<in> set kwargs. Memory_get m' k = Some v"
    using d by (auto simp: get map_of_rev_distinct)
  have kept: "\<forall>k. k \<notin> fst ` set kwargs \<longrightarrow> Memory_get m' k = Memory_get m k"
    by (auto simp: get map_of_eq_None_iff[THEN iffD2] split: option.splits)
  from m' given kept
  show "\<exists>m'. Memory_set m kwargs = Inr m' \<and>
         (\<forall>(k, v) \<in> set kwargs. Memory_get m' k = Some v) \<and>
         (\<forall>k. k \<notin> fst ` set kwargs \<longrightarrow> Memory_get m' k = Memory_get m k)"
    by blast
  show "\<forall>h self. self < length h \<longrightarrow>
         (\<exists>r h'. Memory_set_store h self kwargs = Inr (r, h') \<and>
            h' ! self = h ! self \<and> r \<noteq> self \<and>
            Memory_set \<lparr>vars = h ! self\<rparr> kwargs = Inr \<lparr>vars = h' ! r\<rparr>)"
  proof (intro allI impI)
    fix h :: store and self assume self: "self < length h"
    from ns have call: "Memory_set \<lparr>vars = h ! self\<rparr> kwargs =
        Inr \<lparr>vars = fold assign kwargs (h ! self)\<rparr>"
      by (simp add: Memory_set_def)
    from self show "\<exists>r h'. Memory_set_store h self kwargs = Inr (r, h') \<and>
            h' ! self = h ! self \<and> r \<noteq> self \<and>
            Memory_set \<lparr>vars = h ! self\<rparr> kwargs = Inr \<lparr>vars = h' ! r\<rparr>"
      by (simp add: Memory_set_store_eq[OF self ns] call nth_append)
  qed
next
  assume "''self'' \<in> fst ` set kwargs"
  then show "Memory_set m kwargs = Inl TypeError"
    by (simp add: Memory_set_def)
next
  assume "''self'' \<in> fst ` set kwargs"
  then show "\<forall>h self. Memory_set_store h self kwargs = Inl TypeError"
    by (simp add: Memory_set_store_def)
qed

theorem Memory_set_frame_witness:
  "distinct (map fst [(''a'', 1::int), (''b'', 2)]) \<and>
   ''self'' \<notin> fst ` set [(''a'', 1::int), (''b'', 2)] \<and>
   (\<exists>m'. Memory_set \<lparr>vars = [''a'' \<mapsto> 0, ''c'' \<mapsto> 5]\<rparr> [(''a'', 1), (''b'', 2)] = Inr m' \<and>
      Memory_get m' ''a'' = Some 1 \<and> Memory_get m' ''b'' = Some 2 \<and>
      Memory_get m' ''c'' = Some 5) \<and>
   (0::nat) < length [[''a'' \<mapsto> 0, ''c'' \<mapsto> (5::int)]] \<and>
   (\<exists>r h'. Memory_set_store [[''a'' \<mapsto> 0, ''c'' \<mapsto> 5]] 0 [(''a'', 1), (''b'', 2)] = Inr (r, h') \<and>
      h' ! 0 = [''a'' \<mapsto> 0, ''c'' \<mapsto> 5] \<and> r \<noteq> 0) \<and>
   ''self'' \<in> fst ` set [(''self'', 1::int)] \<and>
   Memory_set \<lparr>vars = [''a'' \<mapsto> 0, ''c'' \<mapsto> 5]\<rparr> [(''self'', 1)] = Inl TypeError"
proof -
  let ?m = "\<lparr>vars = [''a'' \<mapsto> 0, ''c'' \<mapsto> 5]\<rparr>"
  let ?kw = "[(''a'', 1::int), (''b'', 2)]"
  have ok: "distinct (map fst ?kw) \<and> ''self'' \<notin> fst ` set ?kw" by simp
  have bad: "''self'' \<in> fst ` set [(''self'', 1::int)]" by simp
  from Memory_set_frame[of ?kw ?m] ok obtain m' where
    m': "Memory_set ?m ?kw = Inr m'"
    and given: "\<forall>(k, v) \<in> set ?kw. Memory_get m' k = Some v"
    and kept: "\<forall>k. k \<notin> fst ` set ?kw \<longrightarrow> Memory_get m' k = Memory_get ?m k"
    and store: "\<forall>h self. self < length h \<longrightarrow>
         (\<exists>r h'. Memory_set_store h self ?kw = Inr (r, h') \<and>
            h' ! self = h ! self \<and> r \<noteq> self \<and>
            Memory_set \<lparr>vars = h ! self\<rparr> ?kw = Inr \<lparr>vars = h' ! r\<rparr>)"
    by blast
  from given have ab: "Memory_get m' ''a'' = Some 1" "Memory_get m' ''b'' = Some 2"
    by simp_all
  from kept[rule_format, of "''c''"] have c: "Memory_get m' ''c'' = Some 5"
    by (simp add: Memory_get_def)
  from store[rule_format, of 0 "[[''a'' \<mapsto> 0, ''c'' \<mapsto> 5]]"]
  have s: "\<exists>r h'. Memory_set_store [[''a'' \<mapsto> 0, ''c'' \<mapsto> 5]] 0 ?kw = Inr (r, h') \<and>
      h' ! 0 = [''a'' \<mapsto> 0, ''c'' \<mapsto> 5] \<and> r \<noteq> 0"
    by auto
  from Memory_set_frame[of "[(''self'', 1)]" ?m] bad
  have e: "Memory_set ?m [(''self'', 1)] = Inl TypeError" by blast
  from ok bad m' ab c s e show ?thesis by simp
qed

text \<open>
  Claim C8 as stated (every given key is bound to its given value in the returned memory)
  is false for the key \<open>self\<close>: the call returns no memory.
\<close>

theorem Memory_set_self_key:
  "Memory_set \<lparr>vars = Map.empty\<rparr> [(''self'', 1)] = Inl TypeError"
  by (simp add: Memory_set_def)

text \<open>
  Claim C9: a thread whose \<open>is_running\<close> is false stays so: in every state reachable by
  successor steps from a state in which thread i is not running, thread i is present and
  not running.
\<close>

theorem stopped_thread_stays_stopped:
  "e \<in> reach_in n c \<Longrightarrow> i < length (threads c) \<Longrightarrow> \<not> is_running (threads c ! i) \<Longrightarrow>
   i < length (threads e) \<and> \<not> is_running (threads e ! i)"
  using reach_in_keep_stopped[of e n c i] by simp

theorem stopped_thread_stays_stopped_witness:
  "main_state 1 1 2 4 False \<in> reach_in 1 (main_state 0 1 1 4 False) \<and>
   1 < length (threads (main_state 0 1 1 4 False)) \<and>
   \<not> is_running (threads (main_state 0 1 1 4 False) ! 1) \<and>
   1 < length (threads (main_state 1 1 2 4 False)) \<and>
   \<not> is_running (threads (main_state 1 1 2 4 False) ! 1)"
proof -
  have r: "main_state 1 1 2 4 False \<in> reach_in 1 (main_state 0 1 1 4 False)"
    by (simp add: successors_def main_state_run_P_only)
  have l: "1 < length (threads (main_state 0 1 1 4 False))"
    and s: "\<not> is_running (threads (main_state 0 1 1 4 False) ! 1)"
    by (simp_all add: main_state_sel Q_running)
  from stopped_thread_stays_stopped[OF r l s] r l s show ?thesis by simp
qed

text \<open>
  Claim C10: in the model of main, no state reachable from the initial state has a thread
  at position 0; the table entry selected for a running thread is never \<open>nop\<close>, so the
  failure to unpack its 3-tuple cannot occur: \<open>GlobalState.run\<close> returns on every
  reachable state, and the exploration of main returns a result.
\<close>

theorem main_never_at_state_0:
  "(\<forall>n c. c \<in> reach_in n main_initial \<longrightarrow>
      (\<forall>t \<in> set (threads c). current_state t \<noteq> 0 \<and>
         (is_running t \<longrightarrow> (\<exists>f. getitem (states t) (current_state t) = Inr f \<and> f \<noteq> nop))) \<and>
      (\<exists>l. GlobalState_run c = Inr l)) \<and>
   (\<exists>U T. main = Some (Inr (U, T)))"
proof (intro conjI allI impI ballI)
  fix n c t assume r: "c \<in> reach_in n main_initial" and t: "t \<in> set (threads c)"
  from r have inv: "main_inv c" by (rule main_inv_reach)
  from main_inv_current_state[OF inv] t show "current_state t \<noteq> 0" by blast
  assume "is_running t"
  with inv t show "\<exists>f. getitem (states t) (current_state t) = Inr f \<and> f \<noteq> nop"
    by (rule main_inv_not_nop)
next
  fix n c assume "c \<in> reach_in n main_initial"
  then have "main_inv c" by (rule main_inv_reach)
  then show "\<exists>l. GlobalState_run c = Inr l" by (rule main_inv_run)
next
  show "\<exists>U T. main = Some (Inr (U, T))" by (rule main_returns)
qed

theorem main_never_at_state_0_witness:
  "main_state 1 0 2 1 True \<in> reach_in 1 main_initial \<and>
   threads (main_state 1 0 2 1 True) = [P_thread 2, Q_thread 1 True] \<and>
   current_state (P_thread 2) \<noteq> 0 \<and> current_state (Q_thread 1 True) \<noteq> 0 \<and>
   (\<exists>f. getitem (states (P_thread 2)) (current_state (P_thread 2)) = Inr f \<and> f \<noteq> nop) \<and>
   (\<exists>l. GlobalState_run (main_state 1 0 2 1 True) = Inr l) \<and>
   (\<exists>U T. main = Some (Inr (U, T)))"
proof -
  have r: "main_state 1 0 2 1 True \<in> reach_in 1 main_initial"
    by (simp add: successors_def main_initial_eq main_state_run_both)
  have t: "threads (main_state 1 0 2 1 True) = [P_thread 2, Q_thread 1 True]"
    by (simp add: main_state_sel)
  have p: "is_running (P_thread 2)" by (rule P_running)
  from main_never_at_state_0 r have
    "\<forall>t \<in> set (threads (main_state 1 0 2 1 True)). current_state t \<noteq> 0 \<and>
       (is_running t \<longrightarrow> (\<exists>f. getitem (states t) (current_state t) = Inr f \<and> f \<noteq> nop))"
    "\<exists>l. GlobalState_run (main_state 1 0 2 1 True) = Inr l"
    "\<exists>U T. main = Some (Inr (U, T))"
    by blast+
  with r t p show ?thesis by simp
qed

end
